theory Spec2Isabelle
  imports Main
begin

section \<open>Errors, settled promises and observable events\<close>

text \<open>
  The repository has two source units that matter here: \<^verbatim>\<open>util.ts\<close> with the
  executor \<^verbatim>\<open>pipe\<close>, and \<^verbatim>\<open>Node.ts\<close> with the class \<^verbatim>\<open>Node\<close>.
  \<^verbatim>\<open>errors.ts\<close> supplies the two aggregated error classes.

  A value that a processor or a sink can throw is either a value of the caller's own
  (\<open>Thrown\<close>), or one of the two \<^verbatim>\<open>AggregateError\<close> subclasses, each holding
  its list of causes, its optional message and its optional context. The context type
  \<open>'r\<close> is what the executor is handed: a primitive value or the reference to the
  caller's object. What that object holds lives in the world \<open>'w\<close>, which processors
  and sinks may change.
\<close>

type_synonym addr = nat

datatype ('r, 'e) error =
    Thrown 'e
  | MiddlewareError "('r, 'e) error list" "string option" "'r option"
  | PipelineError "('r, 'e) error list" "string option" "'r option"

text \<open>How an awaited \<^verbatim>\<open>Promise<void>\<close> settles.\<close>

datatype ('r, 'e) settled = Resolved | Rejected "('r, 'e) error"

text \<open>
  The trace records what was invoked, in order: an activation predicate function called
  with a node, the processor at a position of the executor's array started, the
  \<^verbatim>\<open>touch\<close> of a linked node called, the processor at a position of a linked
  node's stack started inside that call, the sink at a position of the sink set called.
\<close>

datatype event =
    Ev_pred addr
  | Ev_step nat
  | Ev_touch addr
  | Ev_linked_step addr nat
  | Ev_sink nat

section \<open>Processors\<close>

text \<open>
  A \<^verbatim>\<open>Processor<T>\<close> is an async function of the context and of \<^verbatim>\<open>next\<close>.
  Its body is a sequential program over these statements:
  \<^item> \<open>Return\<close>: the body ends, the promise resolves;
  \<^item> \<open>Throw err\<close>: \<^verbatim>\<open>throw err\<close>;
  \<^item> \<open>Modify f p\<close>: an effect on the world that depends on the context, then \<open>p\<close>;
  \<^item> \<open>Branch c p q\<close>: \<^verbatim>\<open>if (c) p else q\<close>;
  \<^item> \<open>Abort p\<close>: the controller of the executor's signal is aborted, then \<open>p\<close>;
  \<^item> \<open>Await_next p\<close>: \<^verbatim>\<open>await next()\<close>, then \<open>p\<close>; a rejection leaves the body;
  \<^item> \<open>Try_next p h\<close>: \<^verbatim>\<open>try { await next() } catch { h }\<close>, with \<open>p\<close>
    after a \<^verbatim>\<open>next()\<close> that resolved.

  Every call of \<^verbatim>\<open>next\<close> is awaited: a processor that lets a promise float is
  outside this model.
\<close>

datatype ('r, 'w, 'e) processor =
    Return
  | Throw "('r, 'e) error"
  | Modify "'r \<Rightarrow> 'w \<Rightarrow> 'w" "('r, 'w, 'e) processor"
  | Branch "'r \<Rightarrow> 'w \<Rightarrow> bool" "('r, 'w, 'e) processor" "('r, 'w, 'e) processor"
  | Abort "('r, 'w, 'e) processor"
  | Await_next "('r, 'w, 'e) processor"
  | Try_next "('r, 'w, 'e) processor" "('r, 'w, 'e) processor"

section \<open>The executor \<^verbatim>\<open>pipe\<close> (util.ts)\<close>

text \<open>
  One invocation \<^verbatim>\<open>(ctx, signal) => ...\<close> of the executor owns the variables its
  closure \<^verbatim>\<open>next\<close> sees: the context, the optional signal (\<open>None\<close> when no signal
  was passed, otherwise its \<^verbatim>\<open>aborted\<close> flag), and the private copy \<^verbatim>\<open>stack\<close>
  of the processors. Each processor is paired with its position in the array the
  executor was built from, so that the trace can tell two positions apart.
\<close>

record ('r, 'w, 'e) invocation =
  ctx :: 'r
  signal :: "bool option"
  stack :: "(nat \<times> ('r, 'w, 'e) processor) list"
  world :: 'w
  trace :: "event list"

text \<open>
  \<^verbatim>\<open>next\<close> and the body of the processor it starts call each other:
  \<^verbatim>\<open>
    const next: Next = async () => {
      if (signal?.aborted) { return; }
      const processor = stack.shift();
      if (!processor) { return; }
      try { await processor(ctx, next); }
      catch (error: any) {
        throw new PipelineError(
          [new MiddlewareError([error], "Failed to execute processor", ctx)],
          "Failed to execute pipeline", ctx);
      }
    };
  \<close>
\<close>

function (sequential)
  "next" :: "('r, 'w, 'e) invocation \<Rightarrow> ('r, 'e) settled \<times> ('r, 'w, 'e) invocation"
  and run :: "('r, 'w, 'e) processor \<Rightarrow> ('r, 'w, 'e) invocation
                \<Rightarrow> ('r, 'e) settled \<times> ('r, 'w, 'e) invocation"
where
  "next s =
     (if signal s = Some True then (Resolved, s)
      else case stack s of
        [] \<Rightarrow> (Resolved, s)
      | (i, processor) # rest \<Rightarrow>
          (case run processor (s\<lparr>stack := rest, trace := trace s @ [Ev_step i]\<rparr>) of
             (Resolved, s') \<Rightarrow> (Resolved, s')
           | (Rejected err, s') \<Rightarrow>
               (Rejected (PipelineError
                  [MiddlewareError [err] (Some ''Failed to execute processor'') (Some (ctx s))]
                  (Some ''Failed to execute pipeline'') (Some (ctx s))), s')))"
| "run Return s = (Resolved, s)"
| "run (Throw err) s = (Rejected err, s)"
| "run (Modify f p) s = run p (s\<lparr>world := f (ctx s) (world s)\<rparr>)"
| "run (Branch c p q) s = (if c (ctx s) (world s) then run p s else run q s)"
| "run (Abort p) s = run p (s\<lparr>signal := map_option (\<lambda>_. True) (signal s)\<rparr>)"
| "run (Await_next p) s =
     (case next s of
        (Resolved, s') \<Rightarrow> run p s'
      | (Rejected err, s') \<Rightarrow> (Rejected err, s'))"
| "run (Try_next p h) s =
     (case next s of
        (Resolved, s') \<Rightarrow> run p s'
      | (Rejected err, s') \<Rightarrow> run h s')"
  by pat_completeness auto

text \<open>
  The recursion is nested: what runs after \<^verbatim>\<open>await next()\<close> runs in the state that
  \<^verbatim>\<open>next\<close> left. It ends because \<^verbatim>\<open>next\<close> only ever shifts the private
  stack, which is shown first, wherever the two functions are defined.
\<close>

termination
proof -
  have shrinks:
    "next_run_dom (Inl s) \<Longrightarrow> length (stack (snd (next s))) \<le> length (stack s)"
    "next_run_dom (Inr (p, s)) \<Longrightarrow> length (stack (snd (run p s))) \<le> length (stack s)"
    for s :: "('r, 'w, 'e) invocation" and p
  proof (induction s and p s rule: next_run.pinduct)
    case (1 s)
    show ?case
    proof (cases "signal s = Some True")
      case True
      with 1(1) show ?thesis by (simp add: next.psimps)
    next
      case False
      show ?thesis
      proof (cases "stack s")
        case Nil
        with False 1(1) show ?thesis by (simp add: next.psimps)
      next
        case (Cons ip rest)
        obtain i p where ip: "ip = (i, p)" by (cases ip)
        have "length (stack (snd (run p (s\<lparr>stack := rest, trace := trace s @ [Ev_step i]\<rparr>))))
                \<le> length rest"
          using 1(2)[OF False Cons ip[symmetric]] by simp
        with False Cons ip 1(1) show ?thesis
          by (auto simp: next.psimps split: prod.splits settled.splits)
      qed
    qed
  next
    case (6 p s)
    then show ?case
      by (auto simp: run.psimps split: prod.splits settled.splits)
  next
    case (7 p s)
    then show ?case
      by (cases "next s") (auto simp: run.psimps split: settled.splits)
  next
    case (8 p h s)
    then show ?case
      by (cases "next s") (auto simp: run.psimps split: settled.splits)
  qed (auto simp: run.psimps)
  have next_shrinks: "length (stack s') \<le> length (stack s)"
    if "next_run_dom (Inl s)" and "next s = (r, s')"
    for s s' :: "('r, 'w, 'e) invocation" and r
    using shrinks(1)[of s] that by simp
  show ?thesis
  proof (relation "inv_image (less_than <*lex*> less_than)
      (\<lambda>x. case x of Inl s \<Rightarrow> (length (stack s), 0)
                    | Inr (p, s) \<Rightarrow> (length (stack s), Suc (size p)))", goal_cases)
    case 1
    show ?case by (intro wf_inv_image wf_lex_prod wf_less_than)
  qed (auto simp: le_less dest!: next_shrinks[OF _ sym])
qed

declare next.simps [simp del]

text \<open>
  \<^verbatim>\<open>pipe(...processors)\<close> returns the executor; calling it copies the processors
  (\<^verbatim>\<open>const stack = [...processors]\<close>) and returns \<^verbatim>\<open>next()\<close>. The world and the
  trace so far are passed in, and come back in the final invocation state.
\<close>

definition pipe :: "('r, 'w, 'e) processor list \<Rightarrow> 'r \<Rightarrow> bool option \<Rightarrow> 'w \<Rightarrow> event list
    \<Rightarrow> ('r, 'e) settled \<times> ('r, 'w, 'e) invocation" where
  "pipe processors c sig w tr =
     next \<lparr>ctx = c, signal = sig, stack = enumerate 0 processors, world = w, trace = tr\<rparr>"

text \<open>
  The error \<^verbatim>\<open>next\<close> throws for an error \<open>err\<close> caught from a processor: a
  \<^verbatim>\<open>PipelineError\<close> with the context whose one cause is a \<^verbatim>\<open>MiddlewareError\<close>
  with the context whose one cause is \<open>err\<close>.
\<close>

definition chain_failure :: "'r \<Rightarrow> ('r, 'e) error \<Rightarrow> ('r, 'e) error" where
  "chain_failure c err =
     PipelineError [MiddlewareError [err] (Some ''Failed to execute processor'') (Some c)]
       (Some ''Failed to execute pipeline'') (Some c)"

text \<open>
  What a processor body does up to its first call of \<^verbatim>\<open>next\<close>, on the path the
  context, the signal and the world make it take: it returns, it throws, or it reaches
  \<^verbatim>\<open>await next()\<close>, plain or inside a \<^verbatim>\<open>try\<close>, with the rest of the body still
  to run. \<open>before_next\<close> gives that, and the signal and the world at that point.
\<close>

datatype ('r, 'w, 'e) act =
    Returned
  | Threw "('r, 'e) error"
  | Awaited "('r, 'w, 'e) processor"
  | Tried "('r, 'w, 'e) processor" "('r, 'w, 'e) processor"

fun before_next ::
  "'r \<Rightarrow> bool option \<Rightarrow> 'w \<Rightarrow> ('r, 'w, 'e) processor
     \<Rightarrow> ('r, 'w, 'e) act \<times> bool option \<times> 'w" where
  "before_next c sig w Return = (Returned, sig, w)"
| "before_next c sig w (Throw err) = (Threw err, sig, w)"
| "before_next c sig w (Modify f p) = before_next c sig (f c w) p"
| "before_next c sig w (Branch b p q) =
     (if b c w then before_next c sig w p else before_next c sig w q)"
| "before_next c sig w (Abort p) = before_next c (map_option (\<lambda>_. True) sig) w p"
| "before_next c sig w (Await_next p) = (Awaited p, sig, w)"
| "before_next c sig w (Try_next p h) = (Tried p h, sig, w)"

text \<open>
  \<open>throws_at c sig w processors k err\<close>: started with the signal \<open>sig\<close> in the world
  \<open>w\<close>, each of the processors at the positions before \<open>k\<close> is reached with the
  signal not aborted and comes to a plain \<^verbatim>\<open>await next()\<close>, and the processor at
  position \<open>k\<close> is reached with the signal not aborted and throws \<open>err\<close> without
  having called \<^verbatim>\<open>next\<close>.
\<close>

fun throws_at ::
  "'r \<Rightarrow> bool option \<Rightarrow> 'w \<Rightarrow> ('r, 'w, 'e) processor list \<Rightarrow> nat \<Rightarrow> ('r, 'e) error \<Rightarrow> bool"
where
  "throws_at c sig w [] k err = False"
| "throws_at c sig w (p # ps) 0 err =
     (sig \<noteq> Some True \<and>
      (case before_next c sig w p of (Threw err', _, _) \<Rightarrow> err' = err | _ \<Rightarrow> False))"
| "throws_at c sig w (p # ps) (Suc k) err =
     (sig \<noteq> Some True \<and>
      (case before_next c sig w p of
         (Awaited _, sig', w') \<Rightarrow> throws_at c sig' w' ps k err
       | _ \<Rightarrow> False))"

text \<open>
  \<open>calls_through c w processors\<close>: run without a signal from the world \<open>w\<close>, every
  processor but the last comes to an \<^verbatim>\<open>await next()\<close>, plain or inside a
  \<^verbatim>\<open>try\<close>, before it returns or throws. The last one is free.
\<close>

fun calls_through :: "'r \<Rightarrow> 'w \<Rightarrow> ('r, 'w, 'e) processor list \<Rightarrow> bool" where
  "calls_through c w [] = True"
| "calls_through c w [p] = True"
| "calls_through c w (p # q # ps) =
     (case before_next c None w p of
        (Awaited _, _, w') \<Rightarrow> calls_through c w' (q # ps)
      | (Tried _ _, _, w') \<Rightarrow> calls_through c w' (q # ps)
      | _ \<Rightarrow> False)"

text \<open>
  What a call of \<^verbatim>\<open>next\<close> has done when it hands back its promise. An async
  function runs inside the call that starts it up to its first \<^verbatim>\<open>await\<close>:
  \<^verbatim>\<open>next\<close> shifts a processor and calls it, the body runs up to its
  \<^verbatim>\<open>await next()\<close>, which calls \<^verbatim>\<open>next\<close> again, and so on until a body returns
  or throws before calling \<^verbatim>\<open>next\<close>, the signal is aborted, or the stack is empty.
  What stands after an \<^verbatim>\<open>await\<close> runs later. \<open>next_sync\<close> and \<open>body_sync\<close>
  give the state the call leaves.
\<close>

function (sequential)
  next_sync :: "('r, 'w, 'e) invocation \<Rightarrow> ('r, 'w, 'e) invocation"
  and body_sync :: "('r, 'w, 'e) processor \<Rightarrow> ('r, 'w, 'e) invocation \<Rightarrow> ('r, 'w, 'e) invocation"
where
  "next_sync s =
     (if signal s = Some True then s
      else case stack s of
        [] \<Rightarrow> s
      | (i, processor) # rest \<Rightarrow>
          body_sync processor (s\<lparr>stack := rest, trace := trace s @ [Ev_step i]\<rparr>))"
| "body_sync Return s = s"
| "body_sync (Throw err) s = s"
| "body_sync (Modify f p) s = body_sync p (s\<lparr>world := f (ctx s) (world s)\<rparr>)"
| "body_sync (Branch c p q) s = (if c (ctx s) (world s) then body_sync p s else body_sync q s)"
| "body_sync (Abort p) s = body_sync p (s\<lparr>signal := map_option (\<lambda>_. True) (signal s)\<rparr>)"
| "body_sync (Await_next p) s = next_sync s"
| "body_sync (Try_next p h) s = next_sync s"
  by pat_completeness auto

termination
  by (relation "inv_image (less_than <*lex*> less_than)
      (\<lambda>x. case x of Inl s \<Rightarrow> (length (stack s), 0)
                    | Inr (p, s) \<Rightarrow> (length (stack s), Suc (size p)))")
     (auto intro: wf_inv_image wf_lex_prod)

declare next_sync.simps [simp del]

text \<open>
  \<open>consumes k s s'\<close>: from \<open>s\<close> to \<open>s'\<close> the first \<open>k\<close> processors left the
  private stack, each was started once in that order, and nothing else was traced.
\<close>

definition consumes ::
  "nat \<Rightarrow> ('r, 'w, 'e) invocation \<Rightarrow> ('r, 'w, 'e) invocation \<Rightarrow> bool" where
  "consumes k s s' \<longleftrightarrow>
     k \<le> length (stack s) \<and> stack s' = drop k (stack s) \<and>
     trace s' = trace s @ map (Ev_step \<circ> fst) (take k (stack s)) \<and> ctx s' = ctx s"

text \<open>The positions of the processors a trace shows as started.\<close>

fun steps_of :: "event list \<Rightarrow> nat list" where
  "steps_of [] = []"
| "steps_of (Ev_step i # evs) = i # steps_of evs"
| "steps_of (_ # evs) = steps_of evs"

section \<open>The class \<^verbatim>\<open>Node\<close> (Node.ts)\<close>

text \<open>
  \<^verbatim>\<open>Node.ts\<close> holds two declarations of the class. The later one (from
  \<^verbatim>\<open>import { pipe } from "./util.js"\<close> on) is the one the tests and \<^verbatim>\<open>pipe\<close>
  belong to: it has \<^verbatim>\<open>use\<close>, a private stack and outputs of type
  \<^verbatim>\<open>Map<Node<T>, ShouldActivate<T>>\<close>. The earlier one keeps its outputs in a
  \<^verbatim>\<open>Map<string, Output<T>>\<close> under the target's \<^verbatim>\<open>id\<close>. Of the earlier one
  \<^verbatim>\<open>link\<close>, \<^verbatim>\<open>unlink\<close>, \<^verbatim>\<open>explore\<close> and the fan-out of \<^verbatim>\<open>touch\<close> are
  modelled, under names that end in \<open>_v1\<close>; its \<^verbatim>\<open>touch\<close> runs the stack through
  \<^verbatim>\<open>pipeMiddleware\<close>, which the sources do not hold.

  Node objects live in a store and are named by their address, so that two objects with
  equal fields stay two objects, and a link shows the target as it is now.
\<close>

text \<open>
  \<^verbatim>\<open>ShouldActivate<T> = ActivateFn<T> | true\<close>. An activation function reads the
  node it is given, the context and the world; it returns a boolean (\<open>Inr\<close>) or
  throws (\<open>Inl\<close>).
\<close>

datatype ('r, 'w, 'e) should_activate =
    Always
  | Activate_fn "addr \<Rightarrow> 'r \<Rightarrow> 'w \<Rightarrow> ('r, 'e) error + bool"

text \<open>
  \<^verbatim>\<open>Sink<T> = (ctx: T) => MaybePromise<void>\<close>. Calling a sink may change the world.
  The call either throws (\<open>Some err\<close>) or returns, a promise or nothing (\<open>None\<close>);
  a sink declared \<^verbatim>\<open>async\<close> always returns.
\<close>

type_synonym ('r, 'w, 'e) sink = "'r \<Rightarrow> 'w \<Rightarrow> ('r, 'e) error option \<times> 'w"

text \<open>
  A JavaScript \<^verbatim>\<open>Map\<close> keeps its entries in insertion order; \<^verbatim>\<open>set\<close> replaces the
  value of a key that is present, where it stands, and appends a new key;
  \<^verbatim>\<open>delete\<close> removes the key.
\<close>

fun map_set :: "'k \<Rightarrow> 'v \<Rightarrow> ('k \<times> 'v) list \<Rightarrow> ('k \<times> 'v) list" where
  "map_set k v [] = [(k, v)]"
| "map_set k v ((k', v') # kvs) =
     (if k' = k then (k, v) # kvs else (k', v') # map_set k v kvs)"

definition map_delete :: "'k \<Rightarrow> ('k \<times> 'v) list \<Rightarrow> ('k \<times> 'v) list" where
  "map_delete k kvs = filter (\<lambda>(k', _). k' \<noteq> k) kvs"

text \<open>The number of entries a key has; a \<^verbatim>\<open>Map\<close> never holds a key twice.\<close>

definition entries_for :: "'k \<Rightarrow> ('k \<times> 'v) list \<Rightarrow> nat" where
  "entries_for k kvs = length (filter (\<lambda>(k', _). k' = k) kvs)"

text \<open>
  The fields of a node. The type of the outputs is a parameter, as it is what the two
  declarations disagree on. The field \<^verbatim>\<open>id\<close> is \<open>node_id\<close> and the stack is
  \<open>node_stack\<close> here, as \<open>id\<close> and \<open>stack\<close> are taken.
\<close>

record ('r, 'w, 'e, 'o) node =
  node_id :: string
  shouldActivate :: "('r, 'w, 'e) should_activate"
  node_stack :: "('r, 'w, 'e) processor list"
  outputs :: 'o
  sinks :: "('r, 'w, 'e) sink list"

text \<open>\<^verbatim>\<open>interface Output<T> { node; shouldActivate? }\<close> of the earlier declaration.\<close>

record ('r, 'w, 'e) output_v1 =
  out_node :: addr
  out_shouldActivate :: "('r, 'w, 'e) should_activate option"

type_synonym ('r, 'w, 'e) outputs = "(addr \<times> ('r, 'w, 'e) should_activate) list"
type_synonym ('r, 'w, 'e) outputs_v1 = "(string \<times> ('r, 'w, 'e) output_v1) list"

type_synonym ('r, 'w, 'e) store = "addr \<Rightarrow> ('r, 'w, 'e, ('r, 'w, 'e) outputs) node"
type_synonym ('r, 'w, 'e) store_v1 = "addr \<Rightarrow> ('r, 'w, 'e, ('r, 'w, 'e) outputs_v1) node"

record ('r, 'w, 'e) node_init =
  init_id :: "string option"
  init_shouldActivate :: "('r, 'w, 'e) should_activate option"

text \<open>
  The constructor: \<^verbatim>\<open>this.id = id ?? crypto.randomUUID()\<close> and
  \<^verbatim>\<open>this.shouldActivate = shouldActivate ?? true\<close>; stack, outputs and sinks start
  empty. The random identifier is an argument. \<open>Node_new\<close> puts the object at an
  address of the store.
\<close>

definition Node_new ::
  "string \<Rightarrow> ('r, 'w, 'e) node_init \<Rightarrow> ('r, 'w, 'e, ('k \<times> 'v) list) node" where
  "Node_new uuid init =
     \<lparr>node_id = (case init_id init of Some i \<Rightarrow> i | None \<Rightarrow> uuid),
      shouldActivate = (case init_shouldActivate init of Some p \<Rightarrow> p | None \<Rightarrow> Always),
      node_stack = [], outputs = [], sinks = []\<rparr>"

text \<open>
  The static \<^verbatim>\<open>Node.shouldActivate\<close>:
  \<^verbatim>\<open>
    return (shouldActivate === undefined || shouldActivate === true) ||
      shouldActivate(node, ctx);
  \<close>
  It returns the decision, or the error the function threw, and the trace, extended
  when the function was called.
\<close>

fun Node_shouldActivate ::
  "('r, 'w, 'e) should_activate option \<Rightarrow> addr \<Rightarrow> 'r \<Rightarrow> 'w \<Rightarrow> event list
     \<Rightarrow> (('r, 'e) error + bool) \<times> event list"
where
  "Node_shouldActivate None n c w tr = (Inr True, tr)"
| "Node_shouldActivate (Some Always) n c w tr = (Inr True, tr)"
| "Node_shouldActivate (Some (Activate_fn f)) n c w tr = (f n c w, tr @ [Ev_pred n])"

text \<open>\<^verbatim>\<open>use(...processors)\<close>: \<^verbatim>\<open>this.#stack.push(...processors)\<close>.\<close>

definition use ::
  "('r, 'w, 'e) store \<Rightarrow> addr \<Rightarrow> ('r, 'w, 'e) processor list \<Rightarrow> ('r, 'w, 'e) store" where
  "use st this processors =
     st(this := (st this)\<lparr>node_stack := node_stack (st this) @ processors\<rparr>)"

text \<open>
  \<^verbatim>\<open>link(node, shouldActivate?)\<close>:
  \<^verbatim>\<open>this.#outputs.set(node, shouldActivate ?? true)\<close>, and in the earlier declaration
  \<^verbatim>\<open>this.#outputs.set(node.id, { node, shouldActivate })\<close>.
\<close>

definition link ::
  "('r, 'w, 'e) store \<Rightarrow> addr \<Rightarrow> addr \<Rightarrow> ('r, 'w, 'e) should_activate option \<Rightarrow> ('r, 'w, 'e) store"
where
  "link st this n sa =
     st(this := (st this)\<lparr>outputs :=
        map_set n (case sa of Some p \<Rightarrow> p | None \<Rightarrow> Always) (outputs (st this))\<rparr>)"

definition link_v1 ::
  "('r, 'w, 'e) store_v1 \<Rightarrow> addr \<Rightarrow> addr \<Rightarrow> ('r, 'w, 'e) should_activate option
     \<Rightarrow> ('r, 'w, 'e) store_v1"
where
  "link_v1 st this n sa =
     st(this := (st this)\<lparr>outputs :=
        map_set (node_id (st n)) \<lparr>out_node = n, out_shouldActivate = sa\<rparr> (outputs (st this))\<rparr>)"



text \<open>
  What \<^verbatim>\<open>node.touch(ctx)\<close> has done when it hands back its promise to the caller
  that does not await it. \<^verbatim>\<open>touch\<close> is async: the call runs the node's own
  activation rule and, when that says true, the call of the executor up to its first
  \<^verbatim>\<open>await\<close>; an exception on the way rejects the promise and is not thrown into the
  caller. The processors started are traced as those of the linked node. What
  \<^verbatim>\<open>node.touch\<close> does after its \<^verbatim>\<open>await\<close>, its own fan-out included, runs
  later and is not part of the caller's \<^verbatim>\<open>touch\<close>.
\<close>

fun linked :: "addr \<Rightarrow> event \<Rightarrow> event" where
  "linked n (Ev_step i) = Ev_linked_step n i"
| "linked n ev = ev"

definition touch_started ::
  "('r, 'w, 'e) store \<Rightarrow> addr \<Rightarrow> 'r \<Rightarrow> 'w \<Rightarrow> event list \<Rightarrow> 'w \<times> event list" where
  "touch_started st n c w tr =
     (case Node_shouldActivate (Some (shouldActivate (st n))) n c w tr of
        (Inr True, tr1) \<Rightarrow>
          (let s = next_sync \<lparr>ctx = c, signal = None, stack = enumerate 0 (node_stack (st n)),
                               world = w, trace = []\<rparr>
           in (world s, tr1 @ map (linked n) (trace s)))
      | (_, tr1) \<Rightarrow> (w, tr1))"

text \<open>
  The fan-out of \<^verbatim>\<open>touch\<close> over the entries of the outputs, in their order:
  \<^verbatim>\<open>
    [...this.#outputs.entries()].map(([node, shouldActivate]) =>
      Node.shouldActivate(shouldActivate, node, ctx) ? node.touch(ctx) : null)
  \<close>
  The rule for a link and the call of the target's \<^verbatim>\<open>touch\<close> alternate, so the rule
  for a later link sees what the earlier targets did inside their calls. An activation
  function that throws leaves the \<^verbatim>\<open>map\<close> and the body of \<^verbatim>\<open>touch\<close>. The
  promises go to \<^verbatim>\<open>Promise.allSettled\<close>, whose result is dropped.
\<close>

fun touch_outputs ::
  "('r, 'w, 'e) store \<Rightarrow> ('r, 'w, 'e) outputs \<Rightarrow> 'r \<Rightarrow> 'w \<Rightarrow> event list
     \<Rightarrow> ('r, 'e) error option \<times> 'w \<times> event list" where
  "touch_outputs st [] c w tr = (None, w, tr)"
| "touch_outputs st ((n, sa) # rest) c w tr =
     (case Node_shouldActivate (Some sa) n c w tr of
        (Inl err, tr') \<Rightarrow> (Some err, w, tr')
      | (Inr True, tr') \<Rightarrow>
          (case touch_started st n c w (tr' @ [Ev_touch n]) of
             (w', tr'') \<Rightarrow> touch_outputs st rest c w' tr'')
      | (Inr False, tr') \<Rightarrow> touch_outputs st rest c w tr')"




text \<open>
  The sinks: \<^verbatim>\<open>[...this.#sinks.values()].map((sink) => sink(ctx))\<close>. The calls are
  made one after the other inside \<^verbatim>\<open>touch\<close>; an exception thrown by one of them
  leaves the \<^verbatim>\<open>map\<close> and the body of \<^verbatim>\<open>touch\<close>. The promises returned go to
  \<^verbatim>\<open>Promise.allSettled\<close>, whose result is dropped.
\<close>

fun call_sinks ::
  "nat \<Rightarrow> ('r, 'w, 'e) sink list \<Rightarrow> 'r \<Rightarrow> 'w \<Rightarrow> event list
     \<Rightarrow> ('r, 'e) error option \<times> 'w \<times> event list" where
  "call_sinks i [] c w tr = (None, w, tr)"
| "call_sinks i (sink # rest) c w tr =
     (case sink c w of
        (Some err, w') \<Rightarrow> (Some err, w', tr @ [Ev_sink i])
      | (None, w') \<Rightarrow> call_sinks (Suc i) rest c w' (tr @ [Ev_sink i]))"

text \<open>
  \<^verbatim>\<open>touch(ctx, shouldActivate?)\<close> of the later declaration:
  \<^verbatim>\<open>
    const activateFn = shouldActivate ?? this.shouldActivate;
    if (!Node.shouldActivate(activateFn, this, ctx)) { return; }
    await pipe(...this.#stack)(ctx);
    if (this.#outputs.size) { Promise.allSettled(...) }
    if (this.#sinks.size) { Promise.allSettled(...) }
  \<close>
  The result is how the promise of \<^verbatim>\<open>touch\<close> settles, with the world and the trace
  at the moment its body ends. The call is the only activity: nothing else is pending
  while the executor is awaited.
\<close>

definition touch ::
  "('r, 'w, 'e) store \<Rightarrow> addr \<Rightarrow> 'r \<Rightarrow> ('r, 'w, 'e) should_activate option \<Rightarrow> 'w
     \<Rightarrow> event list \<Rightarrow> ('r, 'e) settled \<times> 'w \<times> event list" where
  "touch st this c sa w tr =
     (let activateFn = (case sa of Some p \<Rightarrow> p | None \<Rightarrow> shouldActivate (st this)) in
      case Node_shouldActivate (Some activateFn) this c w tr of
        (Inl err, tr1) \<Rightarrow> (Rejected err, w, tr1)
      | (Inr False, tr1) \<Rightarrow> (Resolved, w, tr1)
      | (Inr True, tr1) \<Rightarrow>
          (case pipe (node_stack (st this)) c None w tr1 of
             (Rejected err, s) \<Rightarrow> (Rejected err, world s, trace s)
           | (Resolved, s) \<Rightarrow>
               (case (if outputs (st this) \<noteq> []
                      then touch_outputs st (outputs (st this)) c (world s) (trace s)
                      else (None, world s, trace s)) of
                  (Some err, w2, tr2) \<Rightarrow> (Rejected err, w2, tr2)
                | (None, w2, tr2) \<Rightarrow>
                    if sinks (st this) \<noteq> []
                    then (case call_sinks 0 (sinks (st this)) c w2 tr2 of
                            (Some err, w3, tr3) \<Rightarrow> (Rejected err, w3, tr3)
                          | (None, w3, tr3) \<Rightarrow> (Resolved, w3, tr3))
                    else (Resolved, w2, tr2))))"

text \<open>
  \<^verbatim>\<open>explore(wrap)\<close> builds a plain object keyed by the identifiers of the outputs:
  \<^verbatim>\<open>
    const tree = {};
    for (const node of this.#outputs.keys()) { tree[node.id] = node.explore(false); }
    return wrap ? { [this.id]: tree } : tree;
  \<close>
  The result is the mapping from the object's own keys to their values; the order in
  which an object lists its keys is not part of it. Assigning \<^verbatim>\<open>tree[key] = sub\<close>
  sets the own key, except for the key \<^verbatim>\<open>__proto__\<close>: that assignment reaches the
  setter of \<^verbatim>\<open>Object.prototype\<close>, which makes \<open>sub\<close> the prototype of the object
  and adds no key. The computed key of \<^verbatim>\<open>{ [this.id]: tree }\<close> always defines an
  own key. The recursion follows the links and does not end on a cycle, so it carries
  fuel: \<open>None\<close> when the fuel runs out.
\<close>

datatype tree = Tree "string \<rightharpoonup> tree"

definition assign :: "(string \<rightharpoonup> tree) \<Rightarrow> string \<Rightarrow> tree \<Rightarrow> (string \<rightharpoonup> tree)" where
  "assign obj key sub = (if key = ''__proto__'' then obj else obj(key \<mapsto> sub))"

fun explore_step ::
  "(addr \<Rightarrow> tree option) \<Rightarrow> (addr \<Rightarrow> string) \<Rightarrow> addr
     \<Rightarrow> (string \<rightharpoonup> tree) option \<Rightarrow> (string \<rightharpoonup> tree) option" where
  "explore_step rec ident n None = None"
| "explore_step rec ident n (Some tree) =
     (case rec n of None \<Rightarrow> None | Some sub \<Rightarrow> Some (assign tree (ident n) sub))"

fun explore :: "nat \<Rightarrow> ('r, 'w, 'e) store \<Rightarrow> addr \<Rightarrow> bool \<Rightarrow> tree option" where
  "explore 0 st this wrap = None"
| "explore (Suc fuel) st this wrap =
     (case fold (explore_step (\<lambda>n. explore fuel st n False) (\<lambda>n. node_id (st n)))
             (map fst (outputs (st this))) (Some Map.empty) of
        None \<Rightarrow> None
      | Some tree \<Rightarrow>
          Some (if wrap then Tree [node_id (st this) \<mapsto> Tree tree] else Tree tree))"

text \<open>
  The earlier declaration iterates \<^verbatim>\<open>this.#outputs.values()\<close> and takes the
  \<^verbatim>\<open>node\<close> of each output.
\<close>

fun explore_v1 :: "nat \<Rightarrow> ('r, 'w, 'e) store_v1 \<Rightarrow> addr \<Rightarrow> bool \<Rightarrow> tree option" where
  "explore_v1 0 st this wrap = None"
| "explore_v1 (Suc fuel) st this wrap =
     (case fold (explore_step (\<lambda>n. explore_v1 fuel st n False) (\<lambda>n. node_id (st n)))
             (map (\<lambda>(_, out). out_node out) (outputs (st this))) (Some Map.empty) of
        None \<Rightarrow> None
      | Some tree \<Rightarrow>
          Some (if wrap then Tree [node_id (st this) \<mapsto> Tree tree] else Tree tree))"

section \<open>Properties of the executor\<close>

subsection \<open>The private stack is consumed from the front\<close>

lemma consumes_refl: "consumes 0 s s"
  by (simp add: consumes_def)

lemma consumes_trans:
  assumes "consumes k s s'" and "consumes j s' s''"
  shows "consumes (k + j) s s''"
proof -
  have "take (k + j) (stack s) = take k (stack s) @ take j (drop k (stack s))"
    by (simp add: take_add)
  with assms show ?thesis
    by (auto simp: consumes_def add.commute)
qed

lemma consumes_world: "consumes k (s\<lparr>world := w\<rparr>) s' \<Longrightarrow> consumes k s s'"
  by (simp add: consumes_def)

lemma consumes_signal: "consumes k (s\<lparr>signal := b\<rparr>) s' \<Longrightarrow> consumes k s s'"
  by (simp add: consumes_def)

lemma consumes_shift:
  assumes "stack s = (i, p) # rest"
    and "consumes k (s\<lparr>stack := rest, trace := trace s @ [Ev_step i]\<rparr>) s'"
  shows "consumes (Suc k) s s'"
  using assms by (simp add: consumes_def)

lemma next_run_consumes:
  "\<exists>k. consumes k s (snd (next s))"
  "\<exists>k. consumes k s (snd (run p s))"
proof (induction s and p s rule: next_run.induct)
  case (1 s)
  show ?case
  proof (cases "signal s = Some True \<or> stack s = []")
    case True
    then have "next s = (Resolved, s)" by (auto simp: next.simps)
    then show ?thesis using consumes_refl[of s] by auto
  next
    case False
    then obtain i p rest where st: "stack s = (i, p) # rest" and sg: "signal s \<noteq> Some True"
      by (cases "stack s") auto
    let ?s1 = "s\<lparr>stack := rest, trace := trace s @ [Ev_step i]\<rparr>"
    from 1[OF sg st refl] obtain k where "consumes k ?s1 (snd (run p ?s1))" by blast
    then have "consumes (Suc k) s (snd (run p ?s1))" by (rule consumes_shift[OF st])
    moreover have "snd (next s) = snd (run p ?s1)"
      using st sg by (simp add: next.simps split: prod.splits settled.splits)
    ultimately show ?thesis by auto
  qed
next
  case (2 s)
  show ?case using consumes_refl[of s] by auto
next
  case (3 err s)
  show ?case using consumes_refl[of s] by auto
next
  case (4 f p s)
  then show ?case by (auto dest: consumes_world)
next
  case (5 c p q s)
  then show ?case by auto
next
  case (6 p s)
  then show ?case by (auto dest: consumes_signal)
next
  case (7 p s)
  obtain r s' where n: "next s = (r, s')" by (cases "next s")
  from 7(1) n obtain k where k: "consumes k s s'" by auto
  show ?case
  proof (cases r)
    case Resolved
    with 7(2)[OF n[symmetric]] obtain j where "consumes j s' (snd (run p s'))" by auto
    with k have "consumes (k + j) s (snd (run p s'))" by (rule consumes_trans)
    with n Resolved show ?thesis by auto
  next
    case (Rejected e)
    with n k show ?thesis by auto
  qed
next
  case (8 p h s)
  obtain r s' where n: "next s = (r, s')" by (cases "next s")
  from 8(1) n obtain k where k: "consumes k s s'" by auto
  show ?case
  proof (cases r)
    case Resolved
    with 8(2)[OF n[symmetric]] obtain j where "consumes j s' (snd (run p s'))" by auto
    with k have "consumes (k + j) s (snd (run p s'))" by (rule consumes_trans)
    with n Resolved show ?thesis by auto
  next
    case (Rejected e)
    with 8(3)[OF n[symmetric]] obtain j where "consumes j s' (snd (run h s'))" by auto
    with k have "consumes (k + j) s (snd (run h s'))" by (rule consumes_trans)
    with n Rejected show ?thesis by auto
  qed
qed

lemma map_fst_enumerate_take:
  "map fst (take k (enumerate n xs)) = [n..<n + min k (length xs)]"
proof (cases "k \<le> length xs")
  case True
  then show ?thesis by (simp add: take_map[symmetric] min_def)
next
  case False
  then show ?thesis by (simp add: min_def)
qed

lemma pipe_trace_prefix:
  "\<exists>m\<le>length processors.
     trace (snd (pipe processors c sig w tr)) = tr @ map Ev_step [0..<m]"
proof -
  let ?s = "\<lparr>ctx = c, signal = sig, stack = enumerate 0 processors, world = w, trace = tr\<rparr>"
  obtain k where k: "consumes k ?s (snd (next ?s))"
    using next_run_consumes(1)[of ?s] by blast
  then have "k \<le> length processors" by (simp add: consumes_def)
  moreover have "trace (snd (next ?s)) = tr @ map Ev_step [0..<k]"
    using k by (simp add: consumes_def map_fst_enumerate_take map_map[symmetric] del: map_map)
  ultimately show ?thesis unfolding pipe_def by blast
qed

lemma run_exhausted:
  assumes "stack s = []"
  shows "stack (snd (run p s)) = [] \<and> trace (snd (run p s)) = trace s"
proof -
  obtain k where "consumes k s (snd (run p s))" using next_run_consumes(2) by blast
  with assms show ?thesis by (simp add: consumes_def)
qed

subsection \<open>A body up to its first call of \<^verbatim>\<open>next\<close>\<close>

lemma run_before_next:
  "run p s =
     (case before_next (ctx s) (signal s) (world s) p of
        (Returned, sg, w) \<Rightarrow> (Resolved, s\<lparr>signal := sg, world := w\<rparr>)
      | (Threw err, sg, w) \<Rightarrow> (Rejected err, s\<lparr>signal := sg, world := w\<rparr>)
      | (Awaited q, sg, w) \<Rightarrow> run (Await_next q) (s\<lparr>signal := sg, world := w\<rparr>)
      | (Tried q h, sg, w) \<Rightarrow> run (Try_next q h) (s\<lparr>signal := sg, world := w\<rparr>))"
proof (induction p arbitrary: s)
  case (Modify f p)
  show ?case
    using Modify[of "s\<lparr>world := f (ctx s) (world s)\<rparr>"]
    by (simp split: prod.splits act.splits)
next
  case (Abort p)
  show ?case
    using Abort[of "s\<lparr>signal := map_option (\<lambda>_. True) (signal s)\<rparr>"]
    by (simp split: prod.splits act.splits)
qed simp_all

lemma before_next_no_signal:
  "before_next c None w p = (a, sg, w') \<Longrightarrow> sg = None"
  by (induction p arbitrary: w) (auto split: if_splits)

lemma next_throws_at:
  assumes "throws_at (ctx s) (signal s) (world s) ps k err"
    and "stack s = enumerate j ps"
  shows "\<exists>s'. next s = (Rejected ((chain_failure (ctx s) ^^ Suc k) err), s') \<and>
           trace s' = trace s @ map Ev_step [j..<j + Suc k]"
  using assms
proof (induction ps arbitrary: s j k)
  case Nil
  then show ?case by simp
next
  case (Cons p ps)
  let ?s1 = "s\<lparr>stack := enumerate (Suc j) ps, trace := trace s @ [Ev_step j]\<rparr>"
  obtain a sg w' where b: "before_next (ctx s) (signal s) (world s) p = (a, sg, w')"
    by (cases "before_next (ctx s) (signal s) (world s) p")
  from Cons.prems(1) have live: "signal s \<noteq> Some True" by (cases k) simp_all
  have n: "next s = (case run p ?s1 of
             (Resolved, s') \<Rightarrow> (Resolved, s')
           | (Rejected e, s') \<Rightarrow> (Rejected (chain_failure (ctx s) e), s'))"
    using live Cons.prems(2)
    by (simp add: next.simps chain_failure_def split: prod.splits settled.splits)
  show ?case
  proof (cases k)
    case 0
    with Cons.prems(1) b have a: "a = Threw err" by (cases a) simp_all
    with b have "run p ?s1 = (Rejected err, ?s1\<lparr>signal := sg, world := w'\<rparr>)"
      by (subst run_before_next) simp
    with n 0 show ?thesis by simp
  next
    case (Suc k')
    with Cons.prems(1) b obtain q where a: "a = Awaited q"
      and t: "throws_at (ctx s) sg w' ps k' err" by (cases a) simp_all
    let ?s2 = "?s1\<lparr>signal := sg, world := w'\<rparr>"
    from a b have r: "run p ?s1 = run (Await_next q) ?s2"
      by (subst run_before_next) simp
    have "\<exists>s'. next ?s2 = (Rejected ((chain_failure (ctx ?s2) ^^ Suc k') err), s') \<and>
           trace s' = trace ?s2 @ map Ev_step [Suc j..<Suc j + Suc k']"
      using t by (intro Cons.IH) simp_all
    then obtain s' where
      n2: "next ?s2 = (Rejected ((chain_failure (ctx s) ^^ Suc k') err), s')"
      and t2: "trace s' = trace s @ Ev_step j # map Ev_step [Suc j..<Suc j + Suc k']" by auto
    from r n2 have "run p ?s1 = (Rejected ((chain_failure (ctx s) ^^ Suc k') err), s')" by simp
    with n have "next s = (Rejected ((chain_failure (ctx s) ^^ Suc k) err), s')"
      using Suc by simp
    moreover have "Ev_step j # map Ev_step [Suc j..<Suc j + Suc k'] = map Ev_step [j..<j + Suc k]"
      using Suc by (subst (2) upt_rec) simp
    ultimately show ?thesis using t2 by auto
  qed
qed

lemma next_calls_through:
  assumes "calls_through (ctx s) (world s) ps" and "signal s = None"
    and "stack s = enumerate j ps"
  shows "stack (snd (next s)) = [] \<and>
         trace (snd (next s)) = trace s @ map Ev_step [j..<j + length ps]"
  using assms
proof (induction ps arbitrary: s j)
  case Nil
  then show ?case by (simp add: next.simps)
next
  case (Cons p ps)
  let ?s1 = "s\<lparr>stack := enumerate (Suc j) ps, trace := trace s @ [Ev_step j]\<rparr>"
  have n: "snd (next s) = snd (run p ?s1)"
    using Cons.prems(2,3) by (simp add: next.simps split: prod.splits settled.splits)
  have up: "Ev_step j # map Ev_step [Suc j..<Suc j + length ps]
      = map Ev_step [j..<j + length (p # ps)]"
    by (subst (2) upt_rec) simp
  show ?case
  proof (cases ps)
    case Nil
    then have "stack ?s1 = []" by simp
    from run_exhausted[OF this, of p] n Nil show ?thesis by simp
  next
    case (Cons q qs)
    obtain a sg w' where b: "before_next (ctx s) None (world s) p = (a, sg, w')"
      by (cases "before_next (ctx s) None (world s) p")
    then have sg: "sg = None" by (rule before_next_no_signal)
    from Cons.prems(1) Cons b have ct: "calls_through (ctx s) w' ps"
      and a: "(\<exists>r. a = Awaited r) \<or> (\<exists>r h. a = Tried r h)"
      by (cases a; simp)+
    let ?s2 = "?s1\<lparr>signal := sg, world := w'\<rparr>"
    have ih: "stack (snd (next ?s2)) = [] \<and>
        trace (snd (next ?s2)) = trace ?s2 @ map Ev_step [Suc j..<Suc j + length ps]"
      using ct sg by (intro Cons.IH) simp_all
    obtain r2 s3 where n2: "next ?s2 = (r2, s3)" by (cases "next ?s2")
    with ih have s3: "stack s3 = []"
      "trace s3 = trace s @ Ev_step j # map Ev_step [Suc j..<Suc j + length ps]" by simp_all
    from a b Cons.prems(2) n2 have "\<exists>g. snd (run p ?s1) = snd (run g s3)"
    proof (elim disjE exE)
      fix r assume "a = Awaited r"
      with b Cons.prems(2) have "run p ?s1 = run (Await_next r) ?s2"
        by (subst run_before_next) simp
      with n2 have "snd (run p ?s1)
          = snd (run (case r2 of Resolved \<Rightarrow> r | Rejected e \<Rightarrow> Return) s3)"
        by (cases r2) simp_all
      then show ?thesis by blast
    next
      fix r h assume "a = Tried r h"
      with b Cons.prems(2) have "run p ?s1 = run (Try_next r h) ?s2"
        by (subst run_before_next) simp
      with n2 have "snd (run p ?s1)
          = snd (run (case r2 of Resolved \<Rightarrow> r | Rejected e \<Rightarrow> h) s3)"
        by (cases r2) simp_all
      then show ?thesis by blast
    qed
    then obtain g where "snd (run p ?s1) = snd (run g s3)" by blast
    with run_exhausted[OF s3(1), of g] n s3(2) up show ?thesis by simp
  qed
qed

lemma pipe_calls_through:
  assumes "calls_through c w ps"
  shows "trace (snd (pipe ps c None w tr)) = tr @ map Ev_step [0..<length ps]"
  using next_calls_through[of
      "\<lparr>ctx = c, signal = None, stack = enumerate 0 ps, world = w, trace = tr\<rparr>" ps 0] assms
  by (simp add: pipe_def)

subsection \<open>A signalled abort\<close>

lemma aborted_stays:
  "signal s = Some True \<Longrightarrow> next s = (Resolved, s)"
  "signal s = Some True \<Longrightarrow>
     stack (snd (run p s)) = stack s \<and> trace (snd (run p s)) = trace s \<and>
     signal (snd (run p s)) = Some True"
proof (induction s and p s rule: next_run.induct)
  case (1 s)
  then show ?case by (simp add: next.simps)
next
  case (7 p s)
  then show ?case by simp
next
  case (8 p h s)
  then show ?case by simp
qed auto

section \<open>The claims about the executor\<close>

text \<open>
  Claim C1, as amended. On the path the execution takes, every processor before position
  \<open>k\<close> is reached with the signal not aborted and comes to a plain \<^verbatim>\<open>await next()\<close>
  (no \<^verbatim>\<open>try\<close> around the call) without having thrown, and the processor at position
  \<open>k\<close> is reached with the signal not aborted and throws \<open>err\<close> before calling
  \<^verbatim>\<open>next\<close>. Then the processors after position \<open>k\<close> are never started, and the
  executor rejects with a \<^verbatim>\<open>PipelineError\<close> carrying the context whose single cause is
  a \<^verbatim>\<open>MiddlewareError\<close> carrying the context. Every \<^verbatim>\<open>next\<close> on the chain of
  awaits wraps what it catches, so \<open>err\<close> lies under \<open>k + 1\<close> such pairs: the error
  has exactly two levels when the first processor is the one that throws.
\<close>

theorem pipe_step_failure:
  assumes "throws_at c sig w processors k err"
  shows "fst (pipe processors c sig w tr) = Rejected ((chain_failure c ^^ Suc k) err) \<and>
         trace (snd (pipe processors c sig w tr)) = tr @ map Ev_step [0..<Suc k]"
proof -
  let ?s = "\<lparr>ctx = c, signal = sig, stack = enumerate 0 processors, world = w, trace = tr\<rparr>"
  have "\<exists>s'. next ?s = (Rejected ((chain_failure (ctx ?s) ^^ Suc k) err), s') \<and>
           trace s' = trace ?s @ map Ev_step [0..<0 + Suc k]"
    using assms by (intro next_throws_at) simp_all
  then show ?thesis by (auto simp: pipe_def)
qed

text \<open>
  The theorem at three processors that branch on the context and the world: the first
  adds ten and awaits \<^verbatim>\<open>next()\<close>, the second throws in the world it then finds, the
  third is not started, and the error has four levels.
\<close>

theorem pipe_step_failure_witness:
  "throws_at (7::nat) None (5::nat)
     [Branch (\<lambda>c w. c < w) (Throw (Thrown ''early'')) (Modify (\<lambda>_ n. n + 10) (Await_next Return)),
      Branch (\<lambda>c w. w = 15) (Throw (Thrown ''boom'')) Return,
      Return] 1 (Thrown ''boom'') \<and>
   fst (pipe
     [Branch (\<lambda>c w. c < w) (Throw (Thrown ''early'')) (Modify (\<lambda>_ n. n + 10) (Await_next Return)),
      Branch (\<lambda>c w. w = 15) (Throw (Thrown ''boom'')) Return,
      Return] (7::nat) None (5::nat) [])
     = Rejected (chain_failure 7 (chain_failure 7 (Thrown ''boom''))) \<and>
   trace (snd (pipe
     [Branch (\<lambda>c w. c < w) (Throw (Thrown ''early'')) (Modify (\<lambda>_ n. n + 10) (Await_next Return)),
      Branch (\<lambda>c w. w = 15) (Throw (Thrown ''boom'')) Return,
      Return] (7::nat) None (5::nat) []))
     = [Ev_step 0, Ev_step 1]"
proof -
  let ?ps = "[Branch (\<lambda>c w. c < w) (Throw (Thrown ''early''))
                (Modify (\<lambda>_ n. n + 10) (Await_next Return)),
              Branch (\<lambda>c w. w = 15) (Throw (Thrown ''boom'')) Return,
              Return] :: (nat, nat, string) processor list"
  have h: "throws_at (7::nat) None (5::nat) ?ps 1 (Thrown ''boom'')" by simp
  from pipe_step_failure[OF h, of "[]"] show ?thesis using h by (simp add: upt_rec)
qed

text \<open>
  Claim C1 as stated fails where the processor that throws is not the first: the second
  of two processors throws, the first neither threw nor withheld \<^verbatim>\<open>next()\<close>, and
  the rejection is not the two-level error around the original one.
\<close>

theorem pipe_step_failure_counterexample:
  "fst (pipe [Await_next Return, Throw (Thrown ''boom'')] (7::nat) None () [])
     = Rejected (chain_failure 7 (chain_failure 7 (Thrown ''boom''))) \<and>
   fst (pipe [Await_next Return, Throw (Thrown ''boom'')] (7::nat) None () [])
     \<noteq> Rejected (chain_failure 7 (Thrown ''boom''))"
  by (simp add: pipe_def next.simps chain_failure_def)

text \<open>
  Claim C7. Once the signal is aborted, \<^verbatim>\<open>next()\<close> resolves and changes nothing: no
  processor leaves the stack, none is started, no error is raised. Whatever a processor
  body does from then on, with as many calls of \<^verbatim>\<open>next\<close> as it likes, starts no
  further processor. An executor that is handed an aborted signal resolves with every
  processor still on its stack and the trace as it was.
\<close>

theorem next_after_abort:
  assumes "signal s = Some True"
  shows "next s = (Resolved, s) \<and>
         stack (snd (run p s)) = stack s \<and> trace (snd (run p s)) = trace s \<and>
         pipe processors c (Some True) w tr =
           (Resolved, \<lparr>ctx = c, signal = Some True, stack = enumerate 0 processors,
                       world = w, trace = tr\<rparr>)"
  using assms aborted_stays(1)[of s] aborted_stays(2)[of s p]
  by (simp add: pipe_def aborted_stays(1))

text \<open>
  The theorem at an aborted invocation whose next processor would throw, and at a body
  that calls \<^verbatim>\<open>next\<close> twice.
\<close>

theorem next_after_abort_witness:
  "signal \<lparr>ctx = (), signal = Some True, stack = [(0, Throw (Thrown ''x''))],
           world = (), trace = []\<rparr> = Some True \<and>
   next \<lparr>ctx = (), signal = Some True, stack = [(0, Throw (Thrown ''x''))],
         world = (), trace = []\<rparr>
     = (Resolved, \<lparr>ctx = (), signal = Some True, stack = [(0, Throw (Thrown ''x''))],
                   world = (), trace = []\<rparr>) \<and>
   trace (snd (run (Await_next (Await_next Return))
      \<lparr>ctx = (), signal = Some True, stack = [(0, Throw (Thrown ''x''))],
        world = (), trace = []\<rparr>)) = []"
proof -
  let ?s = "\<lparr>ctx = (), signal = Some True, stack = [(0, Throw (Thrown ''x''))],
             world = (), trace = []\<rparr> :: (unit, unit, string) invocation"
  have h: "signal ?s = Some True" by simp
  have t: "trace ?s = []" by simp
  from next_after_abort[OF h, of "Await_next (Await_next Return)" "[]" "()" "()" "[]"]
  show ?thesis using h t by metis
qed

text \<open>
  Claim C10. Within one invocation the processors are started in the order of the array,
  without a gap and each at most once, however often a body calls \<^verbatim>\<open>next\<close>: the
  trace of an invocation is the list of the positions below some \<open>m\<close>. A \<^verbatim>\<open>next()\<close>
  on an exhausted stack resolves and changes nothing.
\<close>

theorem pipe_each_step_at_most_once:
  "(\<exists>m\<le>length processors.
      trace (snd (pipe processors c sig w [])) = map Ev_step [0..<m]) \<and>
   distinct (trace (snd (pipe processors c sig w []))) \<and>
   (stack s = [] \<longrightarrow> next s = (Resolved, s))"
proof -
  obtain m where m: "m \<le> length processors"
    "trace (snd (pipe processors c sig w [])) = [] @ map Ev_step [0..<m]"
    using pipe_trace_prefix[of processors c sig w "[]"] by blast
  then have "distinct (trace (snd (pipe processors c sig w [])))"
    by (simp add: distinct_map inj_on_def)
  moreover have "stack s = [] \<longrightarrow> next s = (Resolved, s)"
    by (simp add: next.simps)
  ultimately show ?thesis using m by auto
qed

text \<open>
  The theorem at a first processor that calls \<^verbatim>\<open>next\<close> three times, with two more
  behind it: the third call finds the stack exhausted.
\<close>

theorem pipe_each_step_at_most_once_witness:
  "distinct (trace (snd (pipe
      [Await_next (Await_next (Await_next Return)), Return, Return :: (unit, unit, string) processor]
      () None () []))) \<and>
   next (\<lparr>ctx = (), signal = None, stack = [], world = (), trace = [Ev_step 0]\<rparr>
           :: (unit, unit, string) invocation)
     = (Resolved, \<lparr>ctx = (), signal = None, stack = [], world = (), trace = [Ev_step 0]\<rparr>)"
proof -
  let ?s = "\<lparr>ctx = (), signal = None, stack = [], world = (), trace = [Ev_step 0]\<rparr>
              :: (unit, unit, string) invocation"
  have h: "stack ?s = []" by simp
  from pipe_each_step_at_most_once[of
      "[Await_next (Await_next (Await_next Return)), Return, Return]" "()" None "()" ?s]
  show ?thesis using h by blast
qed

section \<open>Properties of the node\<close>

subsection \<open>What \<^verbatim>\<open>touch\<close> adds to the trace\<close>

lemma steps_of_append: "steps_of (xs @ ys) = steps_of xs @ steps_of ys"
  by (induction xs rule: steps_of.induct) simp_all

lemma steps_of_map_step: "steps_of (map Ev_step is) = is"
  by (induction "is") simp_all

lemma steps_of_linked: "steps_of (map (linked n) evs) = []"
proof (induction evs)
  case Nil
  show ?case by simp
next
  case (Cons ev evs)
  then show ?case by (cases ev) simp_all
qed

lemma steps_of_shouldActivate:
  "steps_of (snd (Node_shouldActivate sa n c w tr)) = steps_of tr"
  by (cases "(sa, n, c, w, tr)" rule: Node_shouldActivate.cases) (auto simp: steps_of_append)

lemma steps_of_touch_started:
  "steps_of (snd (touch_started st n c w tr)) = steps_of tr"
proof -
  obtain d tr1 where d: "Node_shouldActivate (Some (shouldActivate (st n))) n c w tr = (d, tr1)"
    by (cases "Node_shouldActivate (Some (shouldActivate (st n))) n c w tr")
  then have "steps_of tr1 = steps_of tr"
    using steps_of_shouldActivate[of "Some (shouldActivate (st n))" n c w tr] by simp
  with d show ?thesis
    by (auto simp: touch_started_def Let_def steps_of_append steps_of_linked
        split: sum.splits bool.splits)
qed

lemma steps_of_touch_outputs:
  "steps_of (snd (snd (touch_outputs st outs c w tr))) = steps_of tr"
proof (induction st outs c w tr rule: touch_outputs.induct)
  case (1 st c w tr)
  show ?case by simp
next
  case (2 st n sa rest c w tr)
  obtain d tr' where d: "Node_shouldActivate (Some sa) n c w tr = (d, tr')"
    by (cases "Node_shouldActivate (Some sa) n c w tr")
  then have t: "steps_of tr' = steps_of tr"
    using steps_of_shouldActivate[of "Some sa" n c w tr] by simp
  show ?case
  proof (cases d)
    case (Inl err)
    with d t show ?thesis by simp
  next
    case (Inr b)
    show ?thesis
    proof (cases b)
      case True
      obtain w' tr'' where s: "touch_started st n c w (tr' @ [Ev_touch n]) = (w', tr'')"
        by (cases "touch_started st n c w (tr' @ [Ev_touch n])")
      then have "steps_of tr'' = steps_of tr"
        using steps_of_touch_started[of st n c w "tr' @ [Ev_touch n]"] t
        by (simp add: steps_of_append)
      from True have bt: "b = True" by simp
      from 2(1)[OF d[symmetric] Inr bt s[symmetric]] \<open>steps_of tr'' = steps_of tr\<close>
        d Inr True s show ?thesis by simp
    next
      case False
      from False have bf: "b = False" by simp
      from 2(2)[OF d[symmetric] Inr bf] d Inr False t show ?thesis by simp
    qed
  qed
qed

lemma steps_of_call_sinks:
  "steps_of (snd (snd (call_sinks i snks c w tr))) = steps_of tr"
  by (induction i snks c w tr rule: call_sinks.induct)
     (auto simp: steps_of_append split: prod.splits option.splits)

lemma steps_of_touch_active:
  assumes "Node_shouldActivate (Some (case sa of Some p \<Rightarrow> p | None \<Rightarrow> shouldActivate (st this)))
             this c w tr = (Inr True, tr1)"
  shows "steps_of (snd (snd (touch st this c sa w tr)))
           = steps_of (trace (snd (pipe (node_stack (st this)) c None w tr1)))"
proof -
  obtain r s where p: "pipe (node_stack (st this)) c None w tr1 = (r, s)"
    by (cases "pipe (node_stack (st this)) c None w tr1")
  show ?thesis
  proof (cases r)
    case (Rejected e)
    with assms p show ?thesis by (simp add: touch_def)
  next
    case Resolved
    let ?fan = "if outputs (st this) \<noteq> []
                then touch_outputs st (outputs (st this)) c (world s) (trace s)
                else (None, world s, trace s)"
    obtain e w2 tr2 where f: "?fan = (e, w2, tr2)" by (cases ?fan)
    have t2: "steps_of tr2 = steps_of (trace s)"
      using f steps_of_touch_outputs[of st "outputs (st this)" c "world s" "trace s"]
      by (auto split: if_splits)
    obtain e3 w3 tr3 where cs: "call_sinks 0 (sinks (st this)) c w2 tr2 = (e3, w3, tr3)"
      by (cases "call_sinks 0 (sinks (st this)) c w2 tr2")
    have t3: "steps_of tr3 = steps_of tr2"
      using cs steps_of_call_sinks[of 0 "sinks (st this)" c w2 tr2] by simp
    have "steps_of (snd (snd (touch st this c sa w tr))) = steps_of (trace s)"
      using assms p Resolved f cs t2 t3
      by (cases e; cases e3) (simp_all add: touch_def)
    with p show ?thesis by simp
  qed
qed






subsection \<open>The outputs as a \<^verbatim>\<open>Map\<close>\<close>

lemma map_of_map_set_same: "map_of (map_set k v kvs) k = Some v"
  by (induction kvs) auto

lemma map_of_map_set_other: "k' \<noteq> k \<Longrightarrow> map_of (map_set k v kvs) k' = map_of kvs k'"
  by (induction kvs) auto

lemma keys_map_set:
  "map fst (map_set k v kvs) = (if k \<in> set (map fst kvs) then map fst kvs else map fst kvs @ [k])"
  by (induction kvs) force+

lemma distinct_map_set: "distinct (map fst kvs) \<Longrightarrow> distinct (map fst (map_set k v kvs))"
  by (simp add: keys_map_set)

lemma entries_for_distinct:
  "distinct (map fst kvs) \<Longrightarrow> entries_for k kvs = (if k \<in> set (map fst kvs) then 1 else 0)"
  by (induction kvs) (force simp: entries_for_def)+

lemma entries_for_map_set_same:
  "distinct (map fst kvs) \<Longrightarrow> entries_for k (map_set k v kvs) = 1"
  using entries_for_distinct[OF distinct_map_set, of kvs k k v] by (simp add: keys_map_set)


lemma map_of_map_delete_same: "map_of (map_delete k kvs) k = None"
  by (induction kvs) (auto simp: map_delete_def)



lemma entries_for_map_delete_other:
  "k' \<noteq> k \<Longrightarrow> entries_for k' (map_delete k kvs) = entries_for k' kvs"
  by (induction kvs) (auto simp: map_delete_def entries_for_def)

lemma outputs_link: "outputs (link st a b sa a)
    = map_set b (case sa of Some p \<Rightarrow> p | None \<Rightarrow> Always) (outputs (st a))"
  by (simp add: link_def)

lemma outputs_link_v1: "outputs (link_v1 st a b sa a)
    = map_set (node_id (st b)) \<lparr>out_node = b, out_shouldActivate = sa\<rparr> (outputs (st a))"
  by (simp add: link_v1_def)

lemma node_id_link_v1: "node_id (link_v1 st a b sa x) = node_id (st x)"
  by (simp add: link_v1_def)

section \<open>The claims about the node\<close>

text \<open>
  Claim C2, as amended. A node is touched whose effective activation predicate is
  \<^verbatim>\<open>true\<close> or a function returning true, after \<^verbatim>\<open>use\<close> appended \<open>qs\<close> to its
  stack. \<^verbatim>\<open>use\<close> keeps the order: the stack is the old one followed by \<open>qs\<close>. When,
  on the path the execution takes, every processor of the stack but the last calls
  \<^verbatim>\<open>next()\<close> before it returns or throws, \<^verbatim>\<open>touch\<close> starts every processor of
  the stack, in the order of the stack, exactly once.
\<close>

theorem touch_runs_stack_in_order:
  assumes "st' = use st this qs"
    and "fst (Node_shouldActivate
               (Some (case sa of Some p \<Rightarrow> p | None \<Rightarrow> shouldActivate (st' this))) this c w tr)
           = Inr True"
    and "calls_through c w (node_stack (st this) @ qs)"
  shows "node_stack (st' this) = node_stack (st this) @ qs \<and>
         steps_of (snd (snd (touch st' this c sa w tr)))
           = steps_of tr @ [0..<length (node_stack (st this) @ qs)]"
proof -
  from assms(1) have stk: "node_stack (st' this) = node_stack (st this) @ qs"
    by (simp add: use_def)
  let ?d = "Node_shouldActivate
               (Some (case sa of Some p \<Rightarrow> p | None \<Rightarrow> shouldActivate (st' this))) this c w tr"
  from assms(2) have d: "?d = (Inr True, snd ?d)" by (cases ?d) simp
  have "steps_of (snd (snd (touch st' this c sa w tr)))
      = steps_of (trace (snd (pipe (node_stack (st' this)) c None w (snd ?d))))"
    using d by (rule steps_of_touch_active)
  also have "\<dots> = steps_of (snd ?d @ map Ev_step [0..<length (node_stack (st' this))])"
    using assms(3) stk by (subst pipe_calls_through) auto
  also have "\<dots> = steps_of tr @ [0..<length (node_stack (st this) @ qs)]"
    using stk by (simp add: steps_of_append steps_of_map_step steps_of_shouldActivate)
  finally show ?thesis using stk by simp
qed

text \<open>
  The theorem at three processors: the first adds ten and awaits \<^verbatim>\<open>next()\<close> in the
  world it is given, the second calls \<^verbatim>\<open>next\<close> in a \<^verbatim>\<open>try\<close>, the last throws
  without calling \<^verbatim>\<open>next\<close>.
\<close>

theorem touch_runs_stack_in_order_witness:
  "calls_through () (5::nat)
     [Branch (\<lambda>_ n. n < 3) Return (Modify (\<lambda>_ n. n + 10) (Await_next Return)),
      Try_next (Modify (\<lambda>_ n. n * 2) Return) Return,
      Branch (\<lambda>_ n. n = 15) (Throw (Thrown ''last'')) (Await_next Return)
        :: (unit, nat, string) processor] \<and>
   steps_of (snd (snd (touch
      (use (\<lambda>_. Node_new ''uuid'' \<lparr>init_id = None, init_shouldActivate = None\<rparr>) 0
         [Branch (\<lambda>_ n. n < 3) Return (Modify (\<lambda>_ n. n + 10) (Await_next Return)),
          Try_next (Modify (\<lambda>_ n. n * 2) Return) Return,
          Branch (\<lambda>_ n. n = 15) (Throw (Thrown ''last'')) (Await_next Return)
            :: (unit, nat, string) processor])
      0 () None (5::nat) []))) = [0, 1, 2]"
proof -
  let ?st = "(\<lambda>_. Node_new ''uuid'' \<lparr>init_id = None, init_shouldActivate = None\<rparr>)
               :: (unit, nat, string) store"
  let ?qs = "[Branch (\<lambda>_ n. n < 3) Return (Modify (\<lambda>_ n. n + 10) (Await_next Return)),
              Try_next (Modify (\<lambda>_ n. n * 2) Return) Return,
              Branch (\<lambda>_ n. n = 15) (Throw (Thrown ''last'')) (Await_next Return)]
               :: (unit, nat, string) processor list"
  have a: "calls_through () (5::nat) (node_stack (?st 0) @ ?qs)"
    by (simp add: Node_new_def)
  have b: "fst (Node_shouldActivate
               (Some (case None of Some p \<Rightarrow> p | None \<Rightarrow> shouldActivate (use ?st 0 ?qs 0)))
               0 () (5::nat) []) = Inr True"
    by (simp add: Node_new_def use_def)
  show ?thesis
    using touch_runs_stack_in_order[OF refl b a] a by (simp add: Node_new_def upt_rec)
qed

text \<open>
  Claim C2 as stated fails for a processor that returns without calling \<^verbatim>\<open>next\<close>:
  the node is active, its stack has two processors, and only the first is started.
\<close>

theorem touch_runs_stack_in_order_counterexample:
  "fst (Node_shouldActivate (Some Always) 0 () () []) = Inr True \<and>
   steps_of (snd (snd (touch
       (use (\<lambda>_. Node_new ''uuid'' \<lparr>init_id = None, init_shouldActivate = None\<rparr>) 0
          [Return, Return :: (unit, unit, string) processor]) 0 () None () []))) = [0] \<and>
   steps_of (snd (snd (touch
       (use (\<lambda>_. Node_new ''uuid'' \<lparr>init_id = None, init_shouldActivate = None\<rparr>) 0
          [Return, Return :: (unit, unit, string) processor]) 0 () None () []))) \<noteq> [0, 1]"
  by (simp add: touch_def use_def Node_new_def pipe_def next.simps)

text \<open>
  Claim C3. When the effective activation predicate, the override if one is passed and
  the node's own otherwise, evaluates to false, \<^verbatim>\<open>touch\<close> resolves, leaves the
  world as it was, and its only trace is the call of the predicate: no processor is
  started, no output is touched, no sink is called.
\<close>

theorem touch_inactive:
  assumes "fst (Node_shouldActivate
               (Some (case sa of Some p \<Rightarrow> p | None \<Rightarrow> shouldActivate (st this))) this c w tr)
           = Inr False"
  shows "touch st this c sa w tr = (Resolved, w, tr @ [Ev_pred this])"
proof -
  let ?a = "case sa of Some p \<Rightarrow> p | None \<Rightarrow> shouldActivate (st this)"
  from assms obtain f where f: "?a = Activate_fn f" by (cases ?a) auto
  with assms have "Node_shouldActivate (Some ?a) this c w tr = (Inr False, tr @ [Ev_pred this])"
    by simp
  then show ?thesis by (simp add: touch_def)
qed

text \<open>
  The theorem at a node whose stack would throw, with an output and a sink that would
  throw, and a predicate that is false for the context.
\<close>

theorem touch_inactive_witness:
  "fst (Node_shouldActivate (Some (Activate_fn (\<lambda>_ _ n. Inr (0 < n)))) 0 () (0::nat) [])
     = (Inr False :: (unit, string) error + bool) \<and>
   touch ((\<lambda>_. Node_new ''uuid'' \<lparr>init_id = None, init_shouldActivate = None\<rparr>)
            (0 := \<lparr>node_id = ''A'', shouldActivate = Activate_fn (\<lambda>_ _ n. Inr (0 < n)),
                   node_stack = [Throw (Thrown ''boom'')], outputs = [(1, Always)],
                   sinks = [\<lambda>_ w. (Some (Thrown ''sink''), w)]\<rparr>)) 0 () None (0::nat) []
     = (Resolved :: (unit, string) settled, 0, [Ev_pred 0])"
  using touch_inactive[where sa = None and this = 0 and c = "()" and w = "0::nat"
      and tr = "[]" and st =
      "(\<lambda>_. Node_new ''uuid'' \<lparr>init_id = None, init_shouldActivate = None\<rparr>)
            (0 := \<lparr>node_id = ''A'', shouldActivate = Activate_fn (\<lambda>_ _ n. Inr (0 < n)),
                   node_stack = [Throw (Thrown ''boom'')], outputs = [(1, Always)],
                   sinks = [\<lambda>_ w. (Some (Thrown ''sink''), w)]\<rparr>)"]
  by simp



text \<open>
  Claim C5. After \<^verbatim>\<open>A.link(B, p1)\<close> and \<^verbatim>\<open>A.link(B, p2)\<close> the outputs of
  \<open>A\<close> hold one entry for \<open>B\<close>, with the second predicate (\<^verbatim>\<open>true\<close> when it
  was omitted, in the later declaration). It holds for both declarations of the class;
  the outputs of \<open>A\<close> before are those of a \<^verbatim>\<open>Map\<close>, with no key twice.
\<close>

theorem link_twice_one_entry:
  assumes "distinct (map fst (outputs (st a)))" and "distinct (map fst (outputs (sv a)))"
  shows "entries_for b (outputs (link (link st a b p1) a b p2 a)) = 1 \<and>
         map_of (outputs (link (link st a b p1) a b p2 a)) b
           = Some (case p2 of Some p \<Rightarrow> p | None \<Rightarrow> Always) \<and>
         entries_for (node_id (sv b)) (outputs (link_v1 (link_v1 sv a b p1) a b p2 a)) = 1 \<and>
         map_of (outputs (link_v1 (link_v1 sv a b p1) a b p2 a)) (node_id (sv b))
           = Some \<lparr>out_node = b, out_shouldActivate = p2\<rparr>"
  using assms
  by (simp add: outputs_link outputs_link_v1 node_id_link_v1 map_of_map_set_same
      entries_for_map_set_same distinct_map_set)

text \<open>
  The theorem at the links of the repository's test: first without a predicate, then
  with one.
\<close>

theorem link_twice_one_entry_witness:
  "distinct (map fst (outputs
      (((\<lambda>_. Node_new ''u'' \<lparr>init_id = None, init_shouldActivate = None\<rparr>)
          :: (unit, nat, string) store) 0))) \<and>
   entries_for 1 (outputs (link (link
      ((\<lambda>_. Node_new ''u'' \<lparr>init_id = None, init_shouldActivate = None\<rparr>)
          :: (unit, nat, string) store) 0 1 None) 0 1 (Some (Activate_fn (\<lambda>_ _ n. Inr (0 < n)))) 0)) = 1 \<and>
   map_of (outputs (link (link
      ((\<lambda>_. Node_new ''u'' \<lparr>init_id = None, init_shouldActivate = None\<rparr>)
          :: (unit, nat, string) store) 0 1 None) 0 1 (Some (Activate_fn (\<lambda>_ _ n. Inr (0 < n)))) 0)) 1
     = Some (Activate_fn (\<lambda>_ _ n. Inr (0 < n)))"
proof -
  let ?st = "(\<lambda>_. Node_new ''u'' \<lparr>init_id = None, init_shouldActivate = None\<rparr>)
          :: (unit, nat, string) store"
  let ?sv = "(\<lambda>_. Node_new ''u'' \<lparr>init_id = None, init_shouldActivate = None\<rparr>)
          :: (unit, nat, string) store_v1"
  have h: "distinct (map fst (outputs (?st 0)))" by (simp add: Node_new_def)
  have hv: "distinct (map fst (outputs (?sv 0)))" by (simp add: Node_new_def)
  from link_twice_one_entry[OF h hv, where b = 1 and ?p1.0 = None
      and ?p2.0 = "Some (Activate_fn (\<lambda>_ _ n. Inr (0 < n)))"]
  show ?thesis using h by simp
qed

text \<open>
  Claim C6 at a node with no processor, no output and a sink that throws when it is
  called: the exception leaves the \<^verbatim>\<open>map\<close> over the sinks inside the body of
  \<^verbatim>\<open>touch\<close>, so the promise of \<^verbatim>\<open>touch\<close> rejects with the sink's error, and
  the sink after it is not called.
\<close>

theorem touch_sync_sink_throw:
  "touch ((\<lambda>_. Node_new ''uuid'' \<lparr>init_id = None, init_shouldActivate = None\<rparr>)
            (0 := \<lparr>node_id = ''A'', shouldActivate = Always,
                   node_stack = [], outputs = [],
                   sinks = [\<lambda>_ w. (Some (Thrown ''boom''), w), \<lambda>_ w. (None, w)]\<rparr>)) 0 () None () []
     = (Rejected (Thrown ''boom''), (), [Ev_sink 0])"
  by (simp add: touch_def pipe_def next.simps)




text \<open>
  Claim C9. Three new nodes with the identifiers \<open>ia\<close>, \<open>ib\<close>, \<open>ic\<close>, the first
  linked to the second and the second to the third without predicates, the identifiers
  of the two linked nodes other than \<^verbatim>\<open>__proto__\<close>, as \<^verbatim>\<open>A\<close>, \<^verbatim>\<open>B\<close>, \<^verbatim>\<open>C\<close> are:
  \<^verbatim>\<open>explore(true)\<close> on the first returns the nesting of the three identifiers, in
  both declarations of the class. Three levels of recursion are what it takes; any fuel
  from three on gives the result.
\<close>

theorem explore_chain:
  assumes "distinct [a, b, c]" and "ib \<noteq> ''__proto__''" and "ic \<noteq> ''__proto__''"
    and "st' = link (link
            (st(a := Node_new ua \<lparr>init_id = Some ia, init_shouldActivate = pa\<rparr>,
                b := Node_new ub \<lparr>init_id = Some ib, init_shouldActivate = pb\<rparr>,
                c := Node_new uc \<lparr>init_id = Some ic, init_shouldActivate = pc\<rparr>))
            a b None) b c None"
    and "sv' = link_v1 (link_v1
            (sv(a := Node_new ua \<lparr>init_id = Some ia, init_shouldActivate = pa\<rparr>,
                 b := Node_new ub \<lparr>init_id = Some ib, init_shouldActivate = pb\<rparr>,
                 c := Node_new uc \<lparr>init_id = Some ic, init_shouldActivate = pc\<rparr>))
            a b None) b c None"
  shows "explore (Suc (Suc (Suc fuel))) st' a True
           = Some (Tree [ia \<mapsto> Tree [ib \<mapsto> Tree [ic \<mapsto> Tree Map.empty]]]) \<and>
         explore_v1 (Suc (Suc (Suc fuel))) sv' a True
           = Some (Tree [ia \<mapsto> Tree [ib \<mapsto> Tree [ic \<mapsto> Tree Map.empty]]])"
proof -
  from assms(1) have d: "a \<noteq> b" "a \<noteq> c" "b \<noteq> c" by auto
  have o: "outputs (st' a) = [(b, Always)]" "outputs (st' b) = [(c, Always)]"
    "outputs (st' c) = []"
    using d assms(4) by (simp_all add: link_def Node_new_def)
  have i: "node_id (st' a) = ia" "node_id (st' b) = ib" "node_id (st' c) = ic"
    using d assms(4) by (simp_all add: link_def Node_new_def)
  have ec: "explore (Suc fuel) st' c False = Some (Tree Map.empty)"
    using o by simp
  have eb: "explore (Suc (Suc fuel)) st' b False = Some (Tree [ic \<mapsto> Tree Map.empty])"
    using o i ec assms(3) by (simp add: assign_def)
  have ea: "explore (Suc (Suc (Suc fuel))) st' a True
      = Some (Tree [ia \<mapsto> Tree [ib \<mapsto> Tree [ic \<mapsto> Tree Map.empty]]])"
    using o i eb assms(2) by (simp add: assign_def)
  have o1: "outputs (sv' a) = [(ia', \<lparr>out_node = b, out_shouldActivate = None\<rparr>)]"
    "outputs (sv' b) = [(ib', \<lparr>out_node = c, out_shouldActivate = None\<rparr>)]"
    "outputs (sv' c) = []" if "ia' = ib" "ib' = ic" for ia' ib'
    using d assms(5) that by (simp_all add: link_v1_def Node_new_def)
  have i1: "node_id (sv' a) = ia" "node_id (sv' b) = ib" "node_id (sv' c) = ic"
    using d assms(5) by (simp_all add: link_v1_def Node_new_def)
  have ec1: "explore_v1 (Suc fuel) sv' c False = Some (Tree Map.empty)"
    using o1[OF refl refl] by simp
  have eb1: "explore_v1 (Suc (Suc fuel)) sv' b False = Some (Tree [ic \<mapsto> Tree Map.empty])"
    using o1[OF refl refl] i1 ec1 assms(3) by (simp add: assign_def)
  have ea1: "explore_v1 (Suc (Suc (Suc fuel))) sv' a True
      = Some (Tree [ia \<mapsto> Tree [ib \<mapsto> Tree [ic \<mapsto> Tree Map.empty]]])"
    using o1[OF refl refl] i1 eb1 assms(2) by (simp add: assign_def)
  from ea ea1 show ?thesis by simp
qed

text \<open>The theorem at the nodes \<^verbatim>\<open>A\<close>, \<^verbatim>\<open>B\<close>, \<^verbatim>\<open>C\<close> of the repository's test.\<close>

theorem explore_chain_witness:
  "distinct [0::nat, 1, 2] \<and> ''B'' \<noteq> ''__proto__'' \<and> ''C'' \<noteq> ''__proto__'' \<and>
   explore 3 (link (link
      (((\<lambda>_. Node_new ''u'' \<lparr>init_id = None, init_shouldActivate = None\<rparr>)
            :: (unit, unit, string) store)
        (0 := Node_new ''u0'' \<lparr>init_id = Some ''A'', init_shouldActivate = None\<rparr>,
         1 := Node_new ''u1'' \<lparr>init_id = Some ''B'', init_shouldActivate = None\<rparr>,
         2 := Node_new ''u2'' \<lparr>init_id = Some ''C'', init_shouldActivate = None\<rparr>))
      0 1 None) 1 2 None) 0 True
     = Some (Tree [''A'' \<mapsto> Tree [''B'' \<mapsto> Tree [''C'' \<mapsto> Tree Map.empty]]])"
proof -
  have d: "distinct [0::nat, 1, 2]" by simp
  have nb: "''B'' \<noteq> ''__proto__''" and nc: "''C'' \<noteq> ''__proto__''" by simp_all
  from explore_chain[where fuel = 0 and ia = "''A''" and ib = "''B''"
      and ic = "''C''" and ua = "''u0''" and ub = "''u1''" and uc = "''u2''"
      and pa = None and pb = None and pc = None
      and st = "(\<lambda>_. Node_new ''u'' \<lparr>init_id = None, init_shouldActivate = None\<rparr>)
            :: (unit, unit, string) store"
      and sv = "(\<lambda>_. Node_new ''u'' \<lparr>init_id = None, init_shouldActivate = None\<rparr>)
            :: (unit, unit, string) store_v1", OF d nb nc refl refl]
  show ?thesis using d nb nc by (simp only: numeral_3_eq_3 simp_thms)
qed

text \<open>
  A linked node named \<^verbatim>\<open>__proto__\<close> leaves no key in the mapping of the node that
  links to it.
\<close>

lemma explore_proto_link:
  "explore 2
     (link (((\<lambda>_. Node_new ''u'' \<lparr>init_id = None, init_shouldActivate = None\<rparr>)
               :: (unit, unit, string) store)
        (0 := Node_new ''u0'' \<lparr>init_id = Some ''A'', init_shouldActivate = None\<rparr>,
         1 := Node_new ''u1'' \<lparr>init_id = Some ''__proto__'', init_shouldActivate = None\<rparr>))
        0 1 None) 0 True
   = Some (Tree [''A'' \<mapsto> Tree Map.empty])"
  by (simp add: numeral_2_eq_2 link_def Node_new_def assign_def)

end
